theory Spec2Isabelle
  imports Main "HOL-Library.Sublist"
begin

section \<open>The diagram pre-rendering script \<open>scripts/render_whitepaper.py\<close>\<close>

text \<open>
  The script reads a Markdown document, finds the fenced diagram blocks with the regular
  expression \<^verbatim>\<open>```mermaid\n(.*?)```\<close> (flag \<open>DOTALL\<close>), renders each block with an external
  program, substitutes an image reference for every rendered block with \<open>re.sub\<close> and a
  counting callback, and calls an external converter on the result.

  Strings are lists of characters. The pattern is an opening literal, a lazy \<open>.*?\<close> that
  with \<open>DOTALL\<close> accepts every character, and a closing literal, so nothing in the model
  depends on which characters the document holds besides the two literals.
\<close>

subsection \<open>The pattern\<close>

definition open_delim :: string where
  "open_delim = ''```mermaid'' @ [CHR 0x0A]"

definition close_delim :: string where
  "close_delim = ''```''"

text \<open>
  The lazy group \<open>(.*?)\<close> followed by the closing literal: the engine tries the shortest
  payload first, so the payload ends at the first place where the closing literal starts.
  \<open>find_closing s\<close> is that place in \<open>s\<close>, the text after the opening literal.
\<close>

fun find_closing :: "string \<Rightarrow> nat option" where
  "find_closing [] = None"
| "find_closing (c # cs) =
     (if prefix close_delim (c # cs) then Some 0 else map_option Suc (find_closing cs))"

text \<open>
  A match object: \<open>m.start()\<close>, \<open>m.end()\<close>, \<open>m.group(0)\<close> and \<open>m.group(1)\<close>.
\<close>

record rmatch =
  m_start :: nat
  m_end :: nat
  group0 :: string
  group1 :: string

text \<open>
  One attempt of the engine at position \<open>pos\<close>, where \<open>s\<close> is the document from \<open>pos\<close> on.
\<close>

definition match_at :: "nat \<Rightarrow> string \<Rightarrow> rmatch option" where
  "match_at pos s =
     (if prefix open_delim s then
        (case find_closing (drop (length open_delim) s) of
           None \<Rightarrow> None
         | Some k \<Rightarrow>
             Some \<lparr>m_start = pos,
                   m_end = pos + length open_delim + k + length close_delim,
                   group0 = take (length open_delim + k + length close_delim) s,
                   group1 = take k (drop (length open_delim) s)\<rparr>)
      else None)"

text \<open>
  \<open>re.finditer\<close>: the scan goes left to right, tries a match at each position, and after a
  match continues at its end, so matches do not overlap. Every match of this pattern is
  non-empty, so the rule for empty matches never applies.
\<close>

function finditer_from :: "nat \<Rightarrow> string \<Rightarrow> rmatch list" where
  "finditer_from pos s =
     (case match_at pos s of
        Some m \<Rightarrow> m # finditer_from (m_end m) (drop (m_end m - pos) s)
      | None \<Rightarrow>
          (case s of
             [] \<Rightarrow> []
           | c # cs \<Rightarrow> finditer_from (Suc pos) cs))"
  by pat_completeness auto
termination
proof (relation "measure (\<lambda>(pos, s). length s)")
  fix pos :: nat and s :: string and m :: rmatch
  assume "match_at pos s = Some m"
  then have "prefix open_delim s" and "pos < m_end m"
    by (auto simp: match_at_def open_delim_def split: if_splits option.splits)
  then have "s \<noteq> []" and "0 < m_end m - pos"
    by (auto simp: open_delim_def)
  then show "((m_end m, drop (m_end m - pos) s), pos, s) \<in> measure (\<lambda>(pos, s). length s)"
    by (cases s) auto
qed auto

definition finditer :: "string \<Rightarrow> rmatch list" where
  "finditer content = finditer_from 0 content"

text \<open>Line 25: \<open>blocks = list(re.finditer(..., content, re.DOTALL))\<close>.\<close>

definition blocks :: "string \<Rightarrow> rmatch list" where
  "blocks content = finditer content"

text \<open>
  \<open>re.sub\<close> with a function as replacement: the same scan; the text between matches is
  copied, and each match is handed to the callback, whose result is inserted. The callback
  of the script reads and writes a global, so the callback takes and returns a state.
\<close>

function re_sub_from ::
  "(rmatch \<Rightarrow> 's \<Rightarrow> string \<times> 's) \<Rightarrow> nat \<Rightarrow> string \<Rightarrow> 's \<Rightarrow> string \<times> 's" where
  "re_sub_from f pos s st =
     (case match_at pos s of
        Some m \<Rightarrow>
          (case f m st of
             (r, st') \<Rightarrow>
               (case re_sub_from f (m_end m) (drop (m_end m - pos) s) st' of
                  (out, st'') \<Rightarrow> (r @ out, st'')))
      | None \<Rightarrow>
          (case s of
             [] \<Rightarrow> ([], st)
           | c # cs \<Rightarrow>
               (case re_sub_from f (Suc pos) cs st of
                  (out, st') \<Rightarrow> (c # out, st'))))"
  by pat_completeness auto
termination
proof (relation "measure (\<lambda>(f, pos, s, st). length s)")
  fix f :: "rmatch \<Rightarrow> 's \<Rightarrow> string \<times> 's"
    and pos :: nat and s :: string and st st' :: 's and m :: rmatch
  assume "match_at pos s = Some m"
  then have "prefix open_delim s" and "pos < m_end m"
    by (auto simp: match_at_def open_delim_def split: if_splits option.splits)
  then have "s \<noteq> []" and "0 < m_end m - pos"
    by (auto simp: open_delim_def)
  then show "((f, m_end m, drop (m_end m - pos) s, st'), f, pos, s, st)
      \<in> measure (\<lambda>(f, pos, s, st). length s)"
    by (cases s) auto
qed auto

definition re_sub :: "(rmatch \<Rightarrow> 's \<Rightarrow> string \<times> 's) \<Rightarrow> string \<Rightarrow> 's \<Rightarrow> string \<times> 's" where
  "re_sub f content st = re_sub_from f 0 content st"

subsection \<open>The callback and the assembled text\<close>

text \<open>Python's \<open>str\<close> of a non-negative integer, as the f-strings format the index.\<close>

definition digit_char :: "nat \<Rightarrow> char" where
  "digit_char d = char_of (48 + d)"

function str_nat :: "nat \<Rightarrow> string" where
  "str_nat n = (if n < 10 then [digit_char n] else str_nat (n div 10) @ [digit_char (n mod 10)])"
  by pat_completeness auto
termination
  by (relation "measure id") auto

definition image_ref :: "nat \<Rightarrow> string \<Rightarrow> string" where
  "image_ref idx path = ''![Diagram '' @ str_nat idx @ '']('' @ path @ '')''"

text \<open>
  Lines 51 to 58. The global \<open>counter\<close> is the state; \<open>rendered\<close> is the dictionary from
  block index to artifact path that the rendering loop filled.
\<close>

definition replace_block :: "(nat \<rightharpoonup> string) \<Rightarrow> rmatch \<Rightarrow> nat \<Rightarrow> string \<times> nat" where
  "replace_block rendered m counter =
     (let idx = counter;
          counter' = counter + 1
      in (case rendered idx of
            Some p \<Rightarrow> (image_ref idx p, counter')
          | None \<Rightarrow> (group0 m, counter')))"

text \<open>Line 60, \<open>output = re.sub(...)\<close>, with \<open>counter = 0\<close> from line 51.\<close>

definition output_md :: "string \<Rightarrow> (nat \<rightharpoonup> string) \<Rightarrow> string" where
  "output_md content rendered = fst (re_sub (replace_block rendered) content 0)"

subsection \<open>The file system and the external programs\<close>

text \<open>
  The script works on files and starts two programs it does not control. The file system is
  a map from paths to contents. The programs are parameters of the model: each takes the
  file system it finds and returns the one it leaves, with either a completed process
  (\<open>subprocess.CompletedProcess\<close>) or the exception \<open>subprocess.run\<close> raised
  (\<open>TimeoutExpired\<close> after the 60 seconds of line 38, \<open>OSError\<close> when the program cannot
  be started, \<open>UnicodeDecodeError\<close> when the captured output does not decode, since both
  calls pass \<open>text=True\<close>). \<open>subprocess.run\<close> is called without \<open>check=True\<close>, so a
  non-zero exit status is a completed process, not an exception. A program may have
  changed the file system also when the call raises. Writing to the standard output
  (\<open>print\<close>) is taken to succeed.
\<close>

type_synonym path = string
type_synonym filesystem = "path \<rightharpoonup> string"

datatype exn = OSError | TimeoutExpired | UnicodeDecodeError

record completed =
  returncode :: int
  stdout :: string
  stderr :: string

text \<open>
  \<open>writable w p\<close> says whether opening \<open>p\<close> for writing and writing to it succeed;
  \<open>mmdc w inp outp\<close> is the renderer called on the scratch file \<open>inp\<close> for the artifact
  \<open>outp\<close> (the other arguments of line 37 are constants), \<open>pandoc w inp outp\<close> the
  converter of line 68.
\<close>

record world =
  writable :: "path \<Rightarrow> bool"
  mmdc :: "path \<Rightarrow> path \<Rightarrow> filesystem \<Rightarrow> (exn + completed) \<times> filesystem"
  pandoc :: "path \<Rightarrow> path \<Rightarrow> filesystem \<Rightarrow> (exn + completed) \<times> filesystem"

definition DIAGRAM_DIR :: path where
  "DIAGRAM_DIR = ''/tmp/mermaid_diagrams''"



text \<open>\<open>os.path.join(DIAGRAM_DIR, f"d{i}.mmd")\<close> and its sibling, lines 31 and 32.\<close>

definition mmd_path :: "nat \<Rightarrow> path" where
  "mmd_path i = DIAGRAM_DIR @ ''/'' @ ''d'' @ str_nat i @ ''.mmd''"

definition png_path :: "nat \<Rightarrow> path" where
  "png_path i = DIAGRAM_DIR @ ''/'' @ ''d'' @ str_nat i @ ''.png''"

text \<open>\<open>with open(p, "w") as f: f.write(data)\<close>: raises \<open>OSError\<close> when it cannot write.\<close>

definition write_file :: "world \<Rightarrow> path \<Rightarrow> string \<Rightarrow> filesystem \<Rightarrow> exn + filesystem" where
  "write_file w p data fs = (if writable w p then Inr (fs(p \<mapsto> data)) else Inl OSError)"

definition path_exists :: "filesystem \<Rightarrow> path \<Rightarrow> bool" where
  "path_exists fs p = (fs p \<noteq> None)"

definition getsize :: "filesystem \<Rightarrow> path \<Rightarrow> exn + nat" where
  "getsize fs p = (case fs p of None \<Rightarrow> Inl OSError | Some data \<Rightarrow> Inr (length data))"

text \<open>\<open>str(e)\<close> in the message of line 48; the name of the exception stands for its text.\<close>

definition exn_text :: "exn \<Rightarrow> string" where
  "exn_text e =
     (case e of
        OSError \<Rightarrow> ''OSError''
      | TimeoutExpired \<Rightarrow> ''TimeoutExpired''
      | UnicodeDecodeError \<Rightarrow> ''UnicodeDecodeError'')"

subsection \<open>The rendering loop, lines 29 to 48\<close>

text \<open>
  The state of the loop: the file system, the dictionary \<open>rendered\<close>, and the lines printed
  so far (one entry for each call of \<open>print\<close>). A stage that ends with an exception nobody
  catches returns the exception with the lines printed before it.
\<close>

record rstate =
  files :: filesystem
  rendered :: "nat \<rightharpoonup> path"
  printed :: "string list"

text \<open>
  One iteration. The scratch file is written before the \<open>try\<close> (lines 33 and 34), so an
  exception there leaves the loop. Inside the \<open>try\<close>, the handler of line 47 catches what
  \<open>subprocess.run\<close> and \<open>os.path.getsize\<close> raise; \<open>rendered[i]\<close> is assigned on line 41
  when the artifact exists, whatever the exit status of the renderer.
\<close>

definition render_one :: "world \<Rightarrow> nat \<Rightarrow> rmatch \<Rightarrow> rstate \<Rightarrow> (exn \<times> string list) + rstate" where
  "render_one w i m st =
     (let mmd = mmd_path i;
          png = png_path i
      in (case write_file w mmd (group1 m) (files st) of
            Inl e \<Rightarrow> Inl (e, printed st)
          | Inr fs1 \<Rightarrow>
              (case mmdc w mmd png fs1 of
                 (Inl e, fs2) \<Rightarrow>
                   Inr (st\<lparr>files := fs2,
                           printed := printed st @
                             [''  Diagram '' @ str_nat i @ '': ERROR - '' @ exn_text e]\<rparr>)
               | (Inr r, fs2) \<Rightarrow>
                   (if path_exists fs2 png then
                      (case getsize fs2 png of
                         Inr sz \<Rightarrow>
                           Inr (st\<lparr>files := fs2,
                                   rendered := (rendered st)(i \<mapsto> png),
                                   printed := printed st @
                                     [''  Diagram '' @ str_nat i @ '': OK ('' @ str_nat sz
                                        @ '' bytes)'']\<rparr>)
                       | Inl e \<Rightarrow>
                           Inr (st\<lparr>files := fs2,
                                   rendered := (rendered st)(i \<mapsto> png),
                                   printed := printed st @
                                     [''  Diagram '' @ str_nat i @ '': ERROR - '' @ exn_text e]\<rparr>))
                    else
                      Inr (st\<lparr>files := fs2,
                              printed := printed st @
                                [''  Diagram '' @ str_nat i @ '': FAILED'',
                                 ''    stdout: '' @ take 200 (stdout r),
                                 ''    stderr: '' @ take 200 (stderr r)]\<rparr>)))))"

text \<open>\<open>for i, match in enumerate(blocks)\<close>, from index \<open>i\<close> on.\<close>

fun render_loop :: "world \<Rightarrow> nat \<Rightarrow> rmatch list \<Rightarrow> rstate \<Rightarrow> (exn \<times> string list) + rstate" where
  "render_loop w i [] st = Inr st"
| "render_loop w i (m # ms) st =
     (case render_one w i m st of
        Inl e \<Rightarrow> Inl e
      | Inr st' \<Rightarrow> render_loop w (Suc i) ms st')"

subsection \<open>Assembly and conversion, lines 50 to 88\<close>







subsection \<open>Spans, gaps and the trace of the callback\<close>

text \<open>Python's \<open>xs[a:b]\<close> for \<open>a \<le> b\<close>.\<close>

definition slice :: "'a list \<Rightarrow> nat \<Rightarrow> nat \<Rightarrow> 'a list" where
  "slice xs a b = take (b - a) (drop a xs)"

text \<open>
  The text of the document outside the spans of a list of matches: the text from \<open>pos\<close> to
  the first span, between each two spans, and after the last one.
\<close>

fun gaps_from :: "string \<Rightarrow> nat \<Rightarrow> rmatch list \<Rightarrow> string list" where
  "gaps_from content pos [] = [drop pos content]"
| "gaps_from content pos (m # ms) =
     slice content pos (m_start m) # gaps_from content (m_end m) ms"

definition gaps :: "string \<Rightarrow> rmatch list \<Rightarrow> string list" where
  "gaps content ms = gaps_from content 0 ms"

text \<open>\<open>weave [g0, g1, ..., gn] [r0, ..., r(n-1)]\<close> is \<open>g0 @ r0 @ g1 @ ... @ r(n-1) @ gn\<close>.\<close>

fun weave :: "string list \<Rightarrow> string list \<Rightarrow> string" where
  "weave (g # gs) (r # rs) = g @ r @ weave gs rs"
| "weave gs rs = concat gs"


text \<open>
  The callback applied to a list of matches in order, the state threaded through: the
  inserted texts and the last state.
\<close>

fun call_each :: "(rmatch \<Rightarrow> 's \<Rightarrow> string \<times> 's) \<Rightarrow> rmatch list \<Rightarrow> 's \<Rightarrow> string list \<times> 's" where
  "call_each f [] st = ([], st)"
| "call_each f (m # ms) st =
     (case f m st of
        (r, st') \<Rightarrow> (case call_each f ms st' of (rs, st'') \<Rightarrow> (r # rs, st'')))"

subsection \<open>Decimal numerals and the calls of the renderer\<close>

text \<open>
  The number a decimal numeral stands for, \<open>None\<close> when the text is empty or holds a
  character that is no digit: what \<open>int\<close> reads back from the text \<open>str\<close> wrote.
\<close>

definition digit_value :: "char \<Rightarrow> nat option" where
  "digit_value c =
     (let v = (of_char c :: nat) in if 48 \<le> v \<and> v \<le> 57 then Some (v - 48) else None)"

fun decimal_from :: "nat \<Rightarrow> string \<Rightarrow> nat option" where
  "decimal_from acc [] = Some acc"
| "decimal_from acc (c # cs) =
     (case digit_value c of
        None \<Rightarrow> None
      | Some d \<Rightarrow> decimal_from (10 * acc + d) cs)"

definition decimal_value :: "string \<Rightarrow> nat option" where
  "decimal_value s = (if s = [] then None else decimal_from 0 s)"

text \<open>
  The calls of the renderer in the order the loop makes them when every scratch file can
  be written: for each block, what the call returned or raised and the file system it
  left. The payload of the block is in its scratch file when the renderer is called, and
  the next block starts from the file system the call before it left.
\<close>

fun attempts ::
  "world \<Rightarrow> nat \<Rightarrow> rmatch list \<Rightarrow> filesystem \<Rightarrow> ((exn + completed) \<times> filesystem) list" where
  "attempts w i [] fs = []"
| "attempts w i (m # ms) fs =
     (case mmdc w (mmd_path i) (png_path i) (fs(mmd_path i \<mapsto> group1 m)) of
        (res, fs2) \<Rightarrow> (res, fs2) # attempts w (Suc i) ms fs2)"

subsection \<open>Example documents and worlds\<close>

text \<open>
  The documents and mappings the witnesses and counterexamples are evaluated on.
  \<open>doc_plain\<close> has no block: its only opening literal is never closed. \<open>doc_three\<close> has
  three blocks with the payloads \<open>X\<close>, \<open>Y\<close> and \<open>Z\<close> between the texts \<open>a\<close>, \<open>b\<close>, \<open>c\<close>
  and \<open>d\<close>. In \<open>doc_unterminated\<close> two opening literals follow each other and neither is
  closed by a fence of its own. \<open>doc_tail\<close> is a closed block followed by an opening
  literal that is never closed. \<open>doc_space\<close> starts with a fence whose language tag is
  followed by a space, not by the newline. \<open>doc_img_block\<close> holds an image reference of
  its own before its block, and \<open>doc_one\<close> is one block and nothing else.
\<close>

definition doc_plain :: string where
  "doc_plain = ''# Title'' @ [CHR 0x0A] @ ''text, and a fence: '' @ open_delim @ ''graph TD''"

definition doc_three :: string where
  "doc_three = ''a'' @ open_delim @ ''X'' @ close_delim @ ''b'' @ open_delim @ ''Y'' @ close_delim
     @ ''c'' @ open_delim @ ''Z'' @ close_delim @ ''d''"

definition rmap_02 :: "nat \<rightharpoonup> path" where
  "rmap_02 = [0 \<mapsto> png_path 0, 2 \<mapsto> png_path 2]"

definition doc_unterminated :: string where
  "doc_unterminated = open_delim @ ''A'' @ open_delim @ ''B''"

definition rmap_0 :: "nat \<rightharpoonup> path" where
  "rmap_0 = [0 \<mapsto> png_path 0]"

definition doc_tail_pre :: string where
  "doc_tail_pre = ''a'' @ open_delim @ ''X'' @ close_delim @ ''b''"

definition doc_tail :: string where
  "doc_tail = doc_tail_pre @ open_delim @ ''Y''"

definition doc_space :: string where
  "doc_space = ''```mermaid '' @ [CHR 0x0A] @ ''X'' @ close_delim @ open_delim @ ''Z'' @ close_delim"




definition doc_one :: string where
  "doc_one = open_delim @ ''X'' @ close_delim"



text \<open>
  Worlds for the examples. \<open>mmdc_ok\<close> writes the artifact and exits with 0; \<open>pandoc_ok\<close>
  writes the document and exits with 0. In \<open>w_stale\<close> the renderer exits with 1 and writes
  nothing, and \<open>fs_stale\<close> still holds the artifact of block 0 from an earlier run (the
  script never removes its scratch files). In \<open>w_nowrite\<close> the scratch file of block 0
  cannot be written. In \<open>w_flaky\<close> the renderer times out on block 0, exits with 1 and
  writes nothing on block 1, and works on every other block.
\<close>

definition mmdc_ok :: "path \<Rightarrow> path \<Rightarrow> filesystem \<Rightarrow> (exn + completed) \<times> filesystem" where
  "mmdc_ok inp outp fs = (Inr \<lparr>returncode = 0, stdout = '''', stderr = ''''\<rparr>, fs(outp \<mapsto> ''PNG''))"

definition pandoc_ok :: "path \<Rightarrow> path \<Rightarrow> filesystem \<Rightarrow> (exn + completed) \<times> filesystem" where
  "pandoc_ok inp outp fs = (Inr \<lparr>returncode = 0, stdout = '''', stderr = ''''\<rparr>, fs(outp \<mapsto> ''%PDF''))"

definition mmdc_exit1 :: "path \<Rightarrow> path \<Rightarrow> filesystem \<Rightarrow> (exn + completed) \<times> filesystem" where
  "mmdc_exit1 inp outp fs = (Inr \<lparr>returncode = 1, stdout = '''', stderr = ''Parse error''\<rparr>, fs)"

definition w_stale :: world where
  "w_stale = \<lparr>writable = (\<lambda>p. True), mmdc = mmdc_exit1, pandoc = pandoc_ok\<rparr>"

definition fs_stale :: filesystem where
  "fs_stale = [png_path 0 \<mapsto> ''old image'']"


definition w_flaky :: world where
  "w_flaky = \<lparr>writable = (\<lambda>p. True),
     mmdc = (\<lambda>inp outp fs.
        if inp = mmd_path 0 then (Inl TimeoutExpired, fs)
        else if inp = mmd_path 1 then mmdc_exit1 inp outp fs
        else mmdc_ok inp outp fs),
     pandoc = pandoc_ok\<rparr>"

definition st_start :: "filesystem \<Rightarrow> rstate" where
  "st_start fs = \<lparr>files = fs, rendered = Map.empty, printed = []\<rparr>"

text \<open>The report of block \<open>i\<close>: every line the loop prints first for a block starts so.\<close>

definition report_head :: "nat \<Rightarrow> string" where
  "report_head i = ''  Diagram '' @ str_nat i @ '': ''"

definition m_one :: rmatch where
  "m_one = \<lparr>m_start = 0, m_end = 15, group0 = open_delim @ ''X'' @ close_delim, group1 = ''X''\<rparr>"







section \<open>Facts about the pattern and the scan\<close>

subsection \<open>The closing literal\<close>

lemma close_delim_len: "length close_delim = 3" by (simp add: close_delim_def)
lemma open_delim_len: "length open_delim = 11" by (simp add: open_delim_def)

lemma find_closing_Some_prefix:
  "find_closing s = Some k \<Longrightarrow> prefix close_delim (drop k s)"
  by (induction s arbitrary: k) (auto split: if_splits)

lemma find_closing_Some_least:
  "find_closing s = Some k \<Longrightarrow> j < k \<Longrightarrow> \<not> prefix close_delim (drop j s)"
proof (induction s arbitrary: k j)
  case Nil
  then show ?case by simp
next
  case (Cons c cs)
  show ?case
  proof (cases "prefix close_delim (c # cs)")
    case True
    with Cons.prems show ?thesis by simp
  next
    case False
    with Cons.prems obtain k' where k': "find_closing cs = Some k'" "k = Suc k'"
      by auto
    show ?thesis
    proof (cases j)
      case 0
      with False show ?thesis by simp
    next
      case (Suc j')
      with Cons.prems k' have "j' < k'" by simp
      with Cons.IH [OF k'(1)] Suc show ?thesis by simp
    qed
  qed
qed

lemma find_closing_None:
  "find_closing s = None \<Longrightarrow> \<not> prefix close_delim (drop j s)"
proof (induction s arbitrary: j)
  case Nil
  then show ?case by (simp add: close_delim_def)
next
  case (Cons c cs)
  then show ?case by (cases j) (auto split: if_splits)
qed

lemma find_closing_complete:
  "prefix close_delim (drop j s) \<Longrightarrow> \<exists>k\<le>j. find_closing s = Some k"
proof (induction s arbitrary: j)
  case Nil
  then show ?case by (simp add: close_delim_def)
next
  case (Cons c cs)
  show ?case
  proof (cases "prefix close_delim (c # cs)")
    case True
    then show ?thesis by simp
  next
    case False
    with Cons.prems obtain j' where j': "j = Suc j'" by (cases j) auto
    with Cons.prems have "prefix close_delim (drop j' cs)" by simp
    from Cons.IH [OF this] obtain k where "k \<le> j'" "find_closing cs = Some k" by blast
    with False j' show ?thesis by simp
  qed
qed

lemma sublist_iff_prefix_drop: "sublist xs ys \<longleftrightarrow> (\<exists>j. prefix xs (drop j ys))"
proof
  assume "sublist xs ys"
  then obtain ps ss where "ys = ps @ xs @ ss" by (auto simp: sublist_def)
  then have "prefix xs (drop (length ps) ys)" by simp
  then show "\<exists>j. prefix xs (drop j ys)" ..
next
  assume "\<exists>j. prefix xs (drop j ys)"
  then obtain j ss where "drop j ys = xs @ ss" by (auto simp: prefix_def)
  then have "ys = take j ys @ xs @ ss" by (metis append_take_drop_id)
  then show "sublist xs ys" by (auto simp: sublist_def)
qed


lemma find_closing_bound:
  "find_closing s = Some k \<Longrightarrow> k + length close_delim \<le> length s"
proof -
  assume "find_closing s = Some k"
  then have "prefix close_delim (drop k s)" by (rule find_closing_Some_prefix)
  then have "length close_delim \<le> length (drop k s)" by (rule prefix_length_le)
  then show ?thesis by (simp add: close_delim_len)
qed

lemma find_closing_split:
  assumes "find_closing s = Some k"
  shows "s = take k s @ close_delim @ drop (k + length close_delim) s"
proof -
  from assms have "prefix close_delim (drop k s)" by (rule find_closing_Some_prefix)
  then have "take (length close_delim) (drop k s) = close_delim"
    by (metis append_eq_conv_conj prefix_def)
  then have "drop k s = close_delim @ drop (length close_delim) (drop k s)"
    by (metis append_take_drop_id)
  then have "drop k s = close_delim @ drop (k + length close_delim) s"
    by (simp add: add.commute)
  then show ?thesis by (metis append_take_drop_id)
qed

subsection \<open>One attempt of the engine\<close>

lemma match_at_Some_iff:
  "match_at pos s = Some m \<longleftrightarrow>
     (\<exists>k. prefix open_delim s \<and> find_closing (drop (length open_delim) s) = Some k \<and>
          m = \<lparr>m_start = pos,
               m_end = pos + length open_delim + k + length close_delim,
               group0 = take (length open_delim + k + length close_delim) s,
               group1 = take k (drop (length open_delim) s)\<rparr>)"
  by (auto simp: match_at_def split: option.splits)



lemma match_at_start: "match_at pos s = Some m \<Longrightarrow> m_start m = pos"
  by (auto simp: match_at_Some_iff)

lemma match_at_group0:
  assumes "match_at pos s = Some m"
  shows "group0 m = open_delim @ group1 m @ close_delim"
proof -
  from assms obtain k where pre: "prefix open_delim s"
    and k: "find_closing (drop (length open_delim) s) = Some k"
    and g0: "group0 m = take (length open_delim + k + length close_delim) s"
    and g1: "group1 m = take k (drop (length open_delim) s)"
    by (auto simp: match_at_Some_iff)
  let ?t = "drop (length open_delim) s"
  from pre have s: "s = open_delim @ ?t"
    by (metis append_eq_conv_conj prefix_def)
  from find_closing_split [OF k]
  have t: "?t = take k ?t @ close_delim @ drop (k + length close_delim) ?t" .
  from find_closing_bound [OF k] have len: "length (take k ?t) = k" by simp
  have "take (length open_delim + k + length close_delim) s
      = take (length open_delim + k + length close_delim) (open_delim @ ?t)"
    using s by simp
  also have "\<dots> = open_delim @ take (k + length close_delim) ?t"
    by (simp add: add.assoc)
  also have "take (k + length close_delim) ?t
      = take (k + length close_delim) (take k ?t @ close_delim @ drop (k + length close_delim) ?t)"
    using t by simp
  also have "\<dots> = take k ?t @ close_delim"
    using len by simp
  finally show ?thesis using g0 g1 by simp
qed

lemma match_at_end: 
  assumes "match_at pos s = Some m"
  shows "m_end m = pos + length (group0 m)"
proof -
  from assms obtain k where k: "find_closing (drop (length open_delim) s) = Some k"
    and e: "m_end m = pos + length open_delim + k + length close_delim"
    and g1: "group1 m = take k (drop (length open_delim) s)"
    by (auto simp: match_at_Some_iff)
  from find_closing_bound [OF k] g1 have "length (group1 m) = k" by simp
  with e match_at_group0 [OF assms] show ?thesis by simp
qed

lemma match_at_split:
  assumes "match_at pos s = Some m"
  shows "s = group0 m @ drop (m_end m - pos) s"
proof -
  from assms obtain k where 
    g0: "group0 m = take (length open_delim + k + length close_delim) s"
    and e: "m_end m = pos + length open_delim + k + length close_delim"
    by (auto simp: match_at_Some_iff)
  then have "m_end m - pos = length open_delim + k + length close_delim" by simp
  with g0 show ?thesis by (metis append_take_drop_id)
qed

lemma match_at_lazy:
  assumes "match_at pos s = Some m"
    and "prefix (open_delim @ payload @ close_delim) s"
  shows "length (group1 m) \<le> length payload"
proof -
  from assms(1) obtain k where k: "find_closing (drop (length open_delim) s) = Some k"
    and g1: "group1 m = take k (drop (length open_delim) s)"
    by (auto simp: match_at_Some_iff)
  from find_closing_bound [OF k] g1 have len: "length (group1 m) = k" by simp
  from assms(2) obtain t where "s = open_delim @ payload @ close_delim @ t"
    by (auto simp: prefix_def)
  then have "prefix close_delim (drop (length payload) (drop (length open_delim) s))"
    by simp
  then have "\<not> length payload < k"
    using find_closing_Some_least [OF k] by blast
  with len show ?thesis by simp
qed

lemma match_at_intro:
  assumes "find_closing (payload @ close_delim) = Some (length payload)"
  shows "match_at pos (open_delim @ payload @ close_delim @ t)
     = Some \<lparr>m_start = pos, m_end = pos + length (open_delim @ payload @ close_delim),
             group0 = open_delim @ payload @ close_delim, group1 = payload\<rparr>"
proof -
  let ?s = "open_delim @ payload @ close_delim @ t"
  have "prefix close_delim (drop (length payload) (payload @ close_delim @ t))" by simp
  from find_closing_complete [OF this] obtain k
    where k: "k \<le> length payload" "find_closing (payload @ close_delim @ t) = Some k" by blast
  have "k = length payload"
  proof (rule ccontr)
    assume "k \<noteq> length payload"
    with k have lt: "k < length payload" by simp
    from find_closing_Some_prefix [OF k(2)]
    have "prefix close_delim (drop k payload @ close_delim @ t)" using lt by simp
    moreover have "length close_delim \<le> length (drop k payload @ close_delim)"
      by simp
    ultimately have "prefix close_delim (drop k payload @ close_delim)"
      by (metis append.assoc prefix_length_prefix prefixI)
    then have "prefix close_delim (drop k (payload @ close_delim))" using lt by simp
    with find_closing_Some_least [OF assms lt] show False by simp
  qed
  with k show ?thesis
    by (simp add: match_at_def)
qed

subsection \<open>The scan\<close>

declare finditer_from.simps [simp del] re_sub_from.simps [simp del]

lemma match_at_Nil: "match_at pos [] = None"
  by (simp add: match_at_def open_delim_def)

lemma finditer_from_Nil: "finditer_from pos [] = []"
  by (simp add: finditer_from.simps [of pos "[]"] match_at_Nil)

lemma finditer_from_Some:
  "match_at pos s = Some m \<Longrightarrow>
   finditer_from pos s = m # finditer_from (m_end m) (drop (m_end m - pos) s)"
  by (simp add: finditer_from.simps [of pos s])

lemma finditer_from_None:
  "match_at pos (c # cs) = None \<Longrightarrow> finditer_from pos (c # cs) = finditer_from (Suc pos) cs"
  by (simp add: finditer_from.simps [of pos "c # cs"])

lemma re_sub_from_Nil: "re_sub_from f pos [] st = ([], st)"
  by (simp add: re_sub_from.simps [of f pos "[]"] match_at_Nil)

lemma re_sub_from_Some:
  "match_at pos s = Some m \<Longrightarrow>
   re_sub_from f pos s st =
     (case f m st of
        (r, st') \<Rightarrow>
          (case re_sub_from f (m_end m) (drop (m_end m - pos) s) st' of
             (out, st'') \<Rightarrow> (r @ out, st'')))"
  by (simp add: re_sub_from.simps [of f pos s])

lemma re_sub_from_None:
  "match_at pos (c # cs) = None \<Longrightarrow>
   re_sub_from f pos (c # cs) st =
     (case re_sub_from f (Suc pos) cs st of (out, st') \<Rightarrow> (c # out, st'))"
  by (simp add: re_sub_from.simps [of f pos "c # cs"])

lemma drop_drop_end:
  assumes "match_at pos (drop pos content) = Some m"
  shows "drop (m_end m - pos) (drop pos content) = drop (m_end m) content"
proof -
  from match_at_end [OF assms] have "m_end m - pos + pos = m_end m" by simp
  then show ?thesis by simp
qed

lemma finditer_from_bounds:
  "m \<in> set (finditer_from pos s) \<Longrightarrow>
   pos \<le> m_start m \<and> m_start m < m_end m \<and> m_end m \<le> pos + length s"
proof (induction pos s rule: finditer_from.induct)
  case (1 pos s)
  show ?case
  proof (cases "match_at pos s")
    case (Some m')
    note g0 = match_at_group0 [OF Some] and e = match_at_end [OF Some]
      and st = match_at_start [OF Some]
    from match_at_split [OF Some] 
    have "length s = length (group0 m') + length (drop (m_end m' - pos) s)"
      by (metis length_append)
    then have len: "m_end m' + length (drop (m_end m' - pos) s) = pos + length s"
      using e by simp
    have pos': "pos < m_end m'" using e g0 by (simp add: open_delim_def)
    from "1.prems" Some consider "m = m'" | "m \<in> set (finditer_from (m_end m') (drop (m_end m' - pos) s))"
      by (auto simp: finditer_from_Some)
    then show ?thesis
    proof cases
      case 1
      with st pos' len show ?thesis by simp
    next
      case 2
      from "1.IH"(2) [OF Some 2] pos' len show ?thesis by simp
    qed
  next
    case None
    show ?thesis
    proof (cases s)
      case Nil
      with "1.prems" show ?thesis by (simp add: finditer_from_Nil)
    next
      case (Cons c cs)
      with "1.prems" None have "m \<in> set (finditer_from (Suc pos) cs)"
        by (simp add: finditer_from_None)
      from "1.IH"(1) [OF None Cons this] Cons show ?thesis by simp
    qed
  qed
qed

lemma finditer_from_match_at:
  "s = drop pos content \<Longrightarrow> m \<in> set (finditer_from pos s) \<Longrightarrow>
   match_at (m_start m) (drop (m_start m) content) = Some m"
proof (induction pos s rule: finditer_from.induct)
  case (1 pos s)
  show ?case
  proof (cases "match_at pos s")
    case (Some m')
    have s': "drop (m_end m' - pos) s = drop (m_end m') content"
      using Some "1.prems"(1) drop_drop_end by simp
    from "1.prems" Some consider "m = m'" | "m \<in> set (finditer_from (m_end m') (drop (m_end m' - pos) s))"
      by (auto simp: finditer_from_Some)
    then show ?thesis
    proof cases
      case 1
      with Some "1.prems"(1) match_at_start [OF Some] show ?thesis by simp
    next
      case 2
      from "1.IH"(2) [OF Some s' 2] show ?thesis .
    qed
  next
    case None
    show ?thesis
    proof (cases s)
      case Nil
      with "1.prems"(2) show ?thesis by (simp add: finditer_from_Nil)
    next
      case (Cons c cs)
      with "1.prems"(2) None have m: "m \<in> set (finditer_from (Suc pos) cs)"
        by (simp add: finditer_from_None)
      from Cons "1.prems"(1) have "cs = drop (Suc pos) content"
        by (metis drop_Suc drop_drop list.sel(3) plus_1_eq_Suc tl_drop)
      from "1.IH"(1) [OF None Cons this m] show ?thesis .
    qed
  qed
qed

lemma finditer_from_sorted:
  "sorted_wrt (\<lambda>a b. m_end a \<le> m_start b) (finditer_from pos s)"
proof (induction pos s rule: finditer_from.induct)
  case (1 pos s)
  show ?case
  proof (cases "match_at pos s")
    case (Some m')
    have "\<forall>b \<in> set (finditer_from (m_end m') (drop (m_end m' - pos) s)). m_end m' \<le> m_start b"
      using finditer_from_bounds by blast
    with "1.IH"(2) [OF Some] Some show ?thesis
      by (simp add: finditer_from_Some)
  next
    case None
    show ?thesis
    proof (cases s)
      case Nil
      then show ?thesis by (simp add: finditer_from_Nil)
    next
      case (Cons c cs)
      with "1.IH"(1) [OF None Cons] None show ?thesis
        by (simp add: finditer_from_None)
    qed
  qed
qed

subsection \<open>Gaps and inserted texts\<close>

lemma drop_Cons_Suc: "drop pos content = c # cs \<Longrightarrow> drop (Suc pos) content = cs"
  by (metis drop_Suc drop_drop list.sel(3) plus_1_eq_Suc tl_drop)

lemma weave_Cons_char: "weave ((c # g) # gs) rs = c # weave (g # gs) rs"
  by (cases rs) simp_all

lemma gaps_from_step:
  assumes "drop pos content = c # cs" and "\<forall>m\<in>set ms. Suc pos \<le> m_start m"
  shows "\<exists>g gs. gaps_from content (Suc pos) ms = g # gs \<and> gaps_from content pos ms = (c # g) # gs"
proof (cases ms)
  case Nil
  with assms drop_Cons_Suc [OF assms(1)] show ?thesis by simp
next
  case (Cons m ms')
  with assms(2) have "Suc pos \<le> m_start m" by simp
  then have "m_start m - pos = Suc (m_start m - Suc pos)" by simp
  then have "slice content pos (m_start m) = c # slice content (Suc pos) (m_start m)"
    using assms(1) drop_Cons_Suc [OF assms(1)] by (simp add: slice_def)
  with Cons show ?thesis by simp
qed

lemma weave_gaps_step:
  assumes "drop pos content = c # cs" and "\<forall>m\<in>set ms. Suc pos \<le> m_start m"
  shows "weave (gaps_from content pos ms) rs = c # weave (gaps_from content (Suc pos) ms) rs"
proof -
  from gaps_from_step [OF assms] obtain g gs
    where "gaps_from content (Suc pos) ms = g # gs" "gaps_from content pos ms = (c # g) # gs"
    by blast
  then show ?thesis by (simp add: weave_Cons_char)
qed

lemma length_gaps_from: "length (gaps_from content pos ms) = Suc (length ms)"
  by (induction ms arbitrary: pos) simp_all

lemma length_call_each: "length (fst (call_each f ms st)) = length ms"
proof (induction ms arbitrary: st)
  case Nil
  then show ?case by simp
next
  case (Cons m ms)
  obtain r st' where f: "f m st = (r, st')" by (cases "f m st")
  obtain rs st'' where c: "call_each f ms st' = (rs, st'')" by (cases "call_each f ms st'")
  from Cons.IH [of st'] c f show ?case by simp
qed

text \<open>
  The substitution is the callback applied to the matches of the scan in order, with the
  texts between the spans copied.
\<close>

lemma re_sub_from_weave:
  "s = drop pos content \<Longrightarrow>
   re_sub_from f pos s st =
     (weave (gaps_from content pos (finditer_from pos s)) (fst (call_each f (finditer_from pos s) st)),
      snd (call_each f (finditer_from pos s) st))"
proof (induction f pos s st rule: re_sub_from.induct)
  case (1 f pos s st)
  show ?case
  proof (cases "match_at pos s")
    case (Some m)
    obtain r st' where f: "f m st = (r, st')" by (cases "f m st")
    have s': "drop (m_end m - pos) s = drop (m_end m) content"
      using Some "1.prems" drop_drop_end by simp
    note IH = "1.IH"(2) [OF Some f [symmetric] s']
    have "slice content pos (m_start m) = []"
      using match_at_start [OF Some] by (simp add: slice_def)
    with IH Some f show ?thesis
      by (simp add: re_sub_from_Some finditer_from_Some split: prod.splits)
  next
    case None
    show ?thesis
    proof (cases s)
      case Nil
      with "1.prems" show ?thesis
        by (simp add: re_sub_from_Nil finditer_from_Nil)
    next
      case (Cons c cs)
      from Cons "1.prems" have d: "drop pos content = c # cs" by simp
      note IH = "1.IH"(1) [OF None Cons drop_Cons_Suc [OF d, symmetric]]
      have "\<forall>m\<in>set (finditer_from (Suc pos) cs). Suc pos \<le> m_start m"
        using finditer_from_bounds by blast
      from weave_gaps_step [OF d this] IH None Cons show ?thesis
        by (simp add: re_sub_from_None finditer_from_None split: prod.splits)
    qed
  qed
qed

lemma finditer_from_weave:
  "s = drop pos content \<Longrightarrow>
   weave (gaps_from content pos (finditer_from pos s)) (map group0 (finditer_from pos s)) = s"
proof (induction pos s rule: finditer_from.induct)
  case (1 pos s)
  show ?case
  proof (cases "match_at pos s")
    case (Some m)
    have s': "drop (m_end m - pos) s = drop (m_end m) content"
      using Some "1.prems" drop_drop_end by simp
    note IH = "1.IH"(2) [OF Some s']
    have "slice content pos (m_start m) = []"
      using match_at_start [OF Some] by (simp add: slice_def)
    with IH Some match_at_split [OF Some] show ?thesis
      by (simp add: finditer_from_Some)
  next
    case None
    show ?thesis
    proof (cases s)
      case Nil
      with "1.prems" show ?thesis
        by (simp add: finditer_from_Nil)
    next
      case (Cons c cs)
      from Cons "1.prems" have d: "drop pos content = c # cs" by simp
      note IH = "1.IH"(1) [OF None Cons drop_Cons_Suc [OF d, symmetric]]
      have "\<forall>m\<in>set (finditer_from (Suc pos) cs). Suc pos \<le> m_start m"
        using finditer_from_bounds by blast
      from weave_gaps_step [OF d this] IH None Cons show ?thesis
        by (simp add: finditer_from_None)
    qed
  qed
qed

lemma re_sub_from_no_match:
  "finditer_from pos s = [] \<Longrightarrow> re_sub_from f pos s st = (s, st)"
proof (induction f pos s st rule: re_sub_from.induct)
  case (1 f pos s st)
  show ?case
  proof (cases "match_at pos s")
    case (Some m)
    with "1.prems" show ?thesis by (simp add: finditer_from_Some)
  next
    case None
    show ?thesis
    proof (cases s)
      case Nil
      then show ?thesis by (simp add: re_sub_from_Nil)
    next
      case (Cons c cs)
      with "1.prems" None have "finditer_from (Suc pos) cs = []"
        by (simp add: finditer_from_None)
      from "1.IH"(1) [OF None Cons this] None Cons show ?thesis
        by (simp add: re_sub_from_None)
    qed
  qed
qed

subsection \<open>The counting callback\<close>

lemma replace_block_snd: "snd (replace_block rmap m k) = Suc k"
  by (simp add: replace_block_def split: option.splits)

lemma call_each_replace_block:
  "call_each (replace_block rmap) ms k =
     (map (\<lambda>(i, m). fst (replace_block rmap m i)) (enumerate k ms), k + length ms)"
proof (induction ms arbitrary: k)
  case Nil
  then show ?case by simp
next
  case (Cons m ms)
  obtain r where r: "replace_block rmap m k = (r, Suc k)"
    using replace_block_snd [of rmap m k] by (cases "replace_block rmap m k") simp
  with Cons.IH [of "Suc k"] show ?case by simp
qed


subsection \<open>The assembled text\<close>

lemma output_md_weave:
  "output_md content rmap =
     weave (gaps content (blocks content))
       (map (\<lambda>(i, m). fst (replace_block rmap m i)) (enumerate 0 (blocks content)))"
  using re_sub_from_weave [of content 0 content "replace_block rmap" 0]
  by (simp add: output_md_def re_sub_def gaps_def blocks_def finditer_def call_each_replace_block)

lemma content_weave:
  "weave (gaps content (blocks content)) (map group0 (blocks content)) = content"
  using finditer_from_weave [of content 0 content]
  by (simp add: gaps_def blocks_def finditer_def)

lemma weave_sublist:
  "K < length rs \<Longrightarrow> length rs < length gs \<Longrightarrow> sublist (rs ! K) (weave gs rs)"
proof (induction gs rs arbitrary: K rule: weave.induct)
  case (1 g gs r rs)
  show ?case
  proof (cases K)
    case 0
    then show ?thesis by (simp add: sublist_appendI sublist_append_rightI)
  next
    case (Suc K')
    with "1.prems" have "sublist (rs ! K') (weave gs rs)" by (intro "1.IH") simp_all
    then obtain ps ss where "weave gs rs = ps @ rs ! K' @ ss"
      by (auto simp: sublist_def)
    then have "g @ r @ weave gs rs = (g @ r @ ps) @ rs ! K' @ ss" by simp
    then have "sublist (rs ! K') (g @ r @ weave gs rs)"
      unfolding sublist_def by blast
    with Suc show ?thesis by simp
  qed
qed simp_all

lemma blocks_match_at:
  "m \<in> set (blocks content) \<Longrightarrow> match_at (m_start m) (drop (m_start m) content) = Some m"
  using finditer_from_match_at [of content 0 content m]
  by (simp add: blocks_def finditer_def)

lemma blocks_span:
  assumes "m \<in> set (blocks content)"
  shows "group0 m = slice content (m_start m) (m_end m)"
proof -
  note ma = blocks_match_at [OF assms]
  from match_at_end [OF ma] have len: "m_end m - m_start m = length (group0 m)" by simp
  from match_at_split [OF ma] have "prefix (group0 m) (drop (m_start m) content)"
    by (metis prefixI)
  then have "take (length (group0 m)) (drop (m_start m) content) = group0 m"
    by (auto simp: prefix_def)
  with len show ?thesis by (simp add: slice_def)
qed


lemma find_closing_no_backtick:
  "CHR 0x60 \<notin> set a \<Longrightarrow> find_closing (a @ close_delim @ t) = Some (length a)"
proof (induction a)
  case Nil
  then show ?case by (simp add: close_delim_def)
next
  case (Cons c a)
  then have "\<not> prefix close_delim (c # a @ close_delim @ t)"
    by (auto simp: close_delim_def)
  with Cons show ?case by simp
qed

lemma blocks_adjacent:
  assumes "CHR 0x60 \<notin> set a" and "CHR 0x60 \<notin> set b"
  shows "map group1 (blocks (open_delim @ a @ close_delim @ open_delim @ b @ close_delim)) = [a, b]"
proof -
  let ?s2 = "open_delim @ b @ close_delim"
  let ?s = "open_delim @ a @ close_delim @ ?s2"
  let ?m1 = "\<lparr>m_start = 0, m_end = 0 + length (open_delim @ a @ close_delim),
             group0 = open_delim @ a @ close_delim, group1 = a\<rparr>"
  let ?e = "length (open_delim @ a @ close_delim)"
  let ?m2 = "\<lparr>m_start = ?e, m_end = ?e + length (open_delim @ b @ close_delim),
             group0 = open_delim @ b @ close_delim, group1 = b\<rparr>"
  have fa: "find_closing (a @ close_delim) = Some (length a)"
    using find_closing_no_backtick [OF assms(1), of "[]"] by simp
  have fb: "find_closing (b @ close_delim) = Some (length b)"
    using find_closing_no_backtick [OF assms(2), of "[]"] by simp
  have m1: "match_at 0 ?s = Some ?m1" by (rule match_at_intro [OF fa])
  have m2: "match_at ?e ?s2 = Some ?m2"
    using match_at_intro [OF fb, of ?e "[]"] by simp
  have "finditer_from 0 ?s = ?m1 # finditer_from ?e ?s2"
    using finditer_from_Some [OF m1] by simp
  also have "finditer_from ?e ?s2 = ?m2 # finditer_from (?e + length ?s2) []"
    using finditer_from_Some [OF m2] by simp
  finally show ?thesis
    by (simp add: blocks_def finditer_def finditer_from_Nil)
qed

subsection \<open>The text after the last block\<close>

lemma re_sub_from_suffix:
  "\<forall>m\<in>set (finditer_from pos s). m_end m \<le> pos + n \<Longrightarrow>
   suffix (drop n s) (fst (re_sub_from f pos s st))"
proof (induction f pos s st arbitrary: n rule: re_sub_from.induct)
  case (1 f pos s st)
  show ?case
  proof (cases "match_at pos s")
    case (Some m)
    obtain r st' where f: "f m st = (r, st')" by (cases "f m st")
    obtain out st'' where rec: "re_sub_from f (m_end m) (drop (m_end m - pos) s) st' = (out, st'')"
      by (cases "re_sub_from f (m_end m) (drop (m_end m - pos) s) st'")
    let ?L = "m_end m - pos"
    have fi: "finditer_from pos s = m # finditer_from (m_end m) (drop ?L s)"
      by (rule finditer_from_Some [OF Some])
    from match_at_end [OF Some] have e: "m_end m = pos + ?L" by simp
    from "1.prems" fi have le: "m_end m \<le> pos + n" by simp
    with e have Ln: "?L \<le> n" by simp
    have "\<forall>m'\<in>set (finditer_from (m_end m) (drop ?L s)). m_end m' \<le> m_end m + (n - ?L)"
      using "1.prems" fi Ln e by auto
    from "1.IH"(2) [OF Some f [symmetric] this, of ] rec
    have "suffix (drop (n - ?L) (drop ?L s)) out" by simp
    moreover have "drop (n - ?L) (drop ?L s) = drop n s" using Ln by simp
    ultimately have "suffix (drop n s) (r @ out)" by (simp add: suffix_appendI)
    with Some f rec show ?thesis by (simp add: re_sub_from_Some)
  next
    case None
    show ?thesis
    proof (cases s)
      case Nil
      then show ?thesis by (simp add: re_sub_from_Nil)
    next
      case (Cons c cs)
      obtain out st' where rec: "re_sub_from f (Suc pos) cs st = (out, st')"
        by (cases "re_sub_from f (Suc pos) cs st")
      have fi: "finditer_from pos s = finditer_from (Suc pos) cs"
        using None Cons by (simp add: finditer_from_None)
      have res: "fst (re_sub_from f pos s st) = c # out"
        using None Cons rec by (simp add: re_sub_from_None)
      show ?thesis
      proof (cases n)
        case 0
        have "finditer_from (Suc pos) cs = []"
        proof (rule ccontr)
          assume "finditer_from (Suc pos) cs \<noteq> []"
          then obtain m where m: "m \<in> set (finditer_from (Suc pos) cs)"
            by (cases "finditer_from (Suc pos) cs") auto
          from finditer_from_bounds [OF m] have "Suc pos < m_end m" by simp
          moreover from "1.prems" fi m 0 have "m_end m \<le> pos" by simp
          ultimately show False by simp
        qed
        from re_sub_from_no_match [OF this, of f st] rec have "out = cs" by simp
        with res Cons 0 show ?thesis by simp
      next
        case (Suc n')
        have "\<forall>m\<in>set (finditer_from (Suc pos) cs). m_end m \<le> Suc pos + n'"
          using "1.prems" fi Suc by simp
        from "1.IH"(1) [OF None Cons this] rec have "suffix (drop n' cs) out" by simp
        then have "suffix (drop n' cs) (c # out)" by (rule suffix_ConsI)
        with res Cons Suc show ?thesis by simp
      qed
    qed
  qed
qed

lemma closing_inside_opening:
  assumes "0 < j" and "prefix close_delim (drop j (open_delim @ rest))"
  shows "sublist close_delim rest"
proof (cases "j < 11")
  case True
  with assms(1) have "j = 1 \<or> j = 2 \<or> j = 3 \<or> j = 4 \<or> j = 5 \<or> j = 6 \<or> j = 7 \<or> j = 8
      \<or> j = 9 \<or> j = 10" by arith
  with assms(2) have False
    by (elim disjE) (simp_all add: open_delim_def close_delim_def)
  then show ?thesis ..
next
  case False
  then have "drop j (open_delim @ rest) = drop (j - 11) rest"
    by (simp add: open_delim_len)
  with assms(2) show ?thesis
    unfolding sublist_iff_prefix_drop by auto
qed

lemma blocks_before_unterminated:
  assumes "content = pre @ open_delim @ rest" and "\<not> sublist close_delim rest"
    and m: "m \<in> set (blocks content)"
  shows "m_start m < length pre \<and> m_end m \<le> length pre + length close_delim"
proof -
  let ?t = "drop (m_start m) content"
  from blocks_match_at [OF m] obtain k
    where k: "find_closing (drop (length open_delim) ?t) = Some k"
      and meq: "m = \<lparr>m_start = m_start m,
                 m_end = m_start m + length open_delim + k + length close_delim,
                 group0 = take (length open_delim + k + length close_delim) ?t,
                 group1 = take k (drop (length open_delim) ?t)\<rparr>"
    unfolding match_at_Some_iff by blast
  from arg_cong [OF meq, of m_end]
  have e: "m_end m = m_start m + length open_delim + k + length close_delim" by simp
  let ?e = "m_start m + length open_delim + k"
  from find_closing_Some_prefix [OF k]
  have p: "prefix close_delim (drop ?e content)" by (simp add: ac_simps)
  have "?e \<le> length pre"
  proof (rule ccontr)
    assume "\<not> ?e \<le> length pre"
    then have j: "0 < ?e - length pre" by simp
    then have "drop ?e content = drop (?e - length pre) (open_delim @ rest)"
      using assms(1) by simp
    with p closing_inside_opening [OF j] assms(2) show False by simp
  qed
  with e show ?thesis by (simp add: open_delim_len)
qed

subsection \<open>Image references and backticks\<close>

declare str_nat.simps [simp del]





subsection \<open>No match is left when every inserted text is free of backticks\<close>









section \<open>Facts about the rendering loop\<close>


lemma render_one_written:
  assumes "writable w (mmd_path i)"
    and "mmdc w (mmd_path i) (png_path i) ((files st)(mmd_path i \<mapsto> group1 m)) = (res, fs2)"
  shows "\<exists>st' l ls. render_one w i m st = Inr st' \<and> files st' = fs2 \<and>
           printed st' = printed st @ l # ls \<and> prefix (report_head i) l \<and>
           rendered st' =
             (case res of
                Inl e \<Rightarrow> rendered st
              | Inr r \<Rightarrow>
                  if path_exists fs2 (png_path i) then (rendered st)(i \<mapsto> png_path i)
                  else rendered st)"
proof (cases res)
  case (Inl e)
  with assms show ?thesis
    by (simp add: render_one_def write_file_def report_head_def)
next
  case (Inr r)
  show ?thesis
  proof (cases "path_exists fs2 (png_path i)")
    case True
    then obtain d where "fs2 (png_path i) = Some d" by (auto simp: path_exists_def)
    with assms Inr True show ?thesis
      by (simp add: render_one_def write_file_def report_head_def getsize_def)
  next
    case False
    with assms Inr show ?thesis
      by (simp add: render_one_def write_file_def report_head_def)
  qed
qed




section \<open>Facts about the whole run\<close>








subsection \<open>The index in an image reference\<close>

lemma digit_value_digit_char: "d < 10 \<Longrightarrow> digit_value (digit_char d) = Some d"
  by (simp add: digit_value_def digit_char_def Let_def)

lemma decimal_from_snoc:
  "decimal_from acc (xs @ [c]) =
     (case decimal_from acc xs of
        None \<Rightarrow> None
      | Some v \<Rightarrow> (case digit_value c of None \<Rightarrow> None | Some d \<Rightarrow> Some (10 * v + d)))"
  by (induction xs arbitrary: acc) (simp_all split: option.splits)

lemma str_nat_decimal: "str_nat n \<noteq> [] \<and> decimal_from 0 (str_nat n) = Some n"
proof (induction n rule: str_nat.induct)
  case (1 n)
  show ?case
  proof (cases "n < 10")
    case True
    then show ?thesis
      by (subst (1 2) str_nat.simps) (simp add: digit_value_digit_char)
  next
    case False
    from "1.IH" [OF False] have ih: "decimal_from 0 (str_nat (n div 10)) = Some (n div 10)"
      by simp
    have d: "digit_value (digit_char (n mod 10)) = Some (n mod 10)"
      by (rule digit_value_digit_char) simp
    from False ih d show ?thesis
      by (subst (1 2) str_nat.simps) (simp add: decimal_from_snoc)
  qed
qed

lemma decimal_value_str_nat: "decimal_value (str_nat n) = Some n"
  using str_nat_decimal [of n] by (simp add: decimal_value_def)

subsection \<open>The mapping the loop ends with\<close>

lemma render_loop_rendered:
  "\<forall>i. k \<le> i \<and> i < k + length ms \<longrightarrow> writable w (mmd_path i) \<Longrightarrow>
   \<exists>st'. render_loop w k ms st = Inr st' \<and>
     (\<forall>i. rendered st' i =
        (if k \<le> i \<and> i < k + length ms
            \<and> (\<exists>r. fst (attempts w k ms (files st) ! (i - k)) = Inr r)
            \<and> path_exists (snd (attempts w k ms (files st) ! (i - k))) (png_path i)
         then Some (png_path i) else rendered st i))"
proof (induction ms arbitrary: k st)
  case Nil
  then show ?case by auto
next
  case (Cons m ms)
  from Cons.prems have w: "writable w (mmd_path k)" by simp
  obtain res fs2
    where run: "mmdc w (mmd_path k) (png_path k) ((files st)(mmd_path k \<mapsto> group1 m)) = (res, fs2)"
    by (cases "mmdc w (mmd_path k) (png_path k) ((files st)(mmd_path k \<mapsto> group1 m))")
  from render_one_written [OF w run] obtain st1
    where one: "render_one w k m st = Inr st1" and f1: "files st1 = fs2"
      and r1: "rendered st1 =
             (case res of
                Inl e \<Rightarrow> rendered st
              | Inr r \<Rightarrow>
                  if path_exists fs2 (png_path k) then (rendered st)(k \<mapsto> png_path k)
                  else rendered st)"
    by (elim exE conjE)
  have "\<forall>i. Suc k \<le> i \<and> i < Suc k + length ms \<longrightarrow> writable w (mmd_path i)"
    using Cons.prems by simp
  from Cons.IH [OF this, of st1] obtain st'
    where rest: "render_loop w (Suc k) ms st1 = Inr st'"
      and ih: "\<forall>i. rendered st' i =
        (if Suc k \<le> i \<and> i < Suc k + length ms
            \<and> (\<exists>r. fst (attempts w (Suc k) ms (files st1) ! (i - Suc k)) = Inr r)
            \<and> path_exists (snd (attempts w (Suc k) ms (files st1) ! (i - Suc k))) (png_path i)
         then Some (png_path i) else rendered st1 i)"
    by (elim exE conjE)
  have "\<forall>i. rendered st' i =
        (if k \<le> i \<and> i < k + length (m # ms)
            \<and> (\<exists>r. fst (attempts w k (m # ms) (files st) ! (i - k)) = Inr r)
            \<and> path_exists (snd (attempts w k (m # ms) (files st) ! (i - k))) (png_path i)
         then Some (png_path i) else rendered st i)"
  proof
    fix i
    show "rendered st' i =
        (if k \<le> i \<and> i < k + length (m # ms)
            \<and> (\<exists>r. fst (attempts w k (m # ms) (files st) ! (i - k)) = Inr r)
            \<and> path_exists (snd (attempts w k (m # ms) (files st) ! (i - k))) (png_path i)
         then Some (png_path i) else rendered st i)"
    proof (cases "i = k")
      case True
      from ih have "rendered st' k = rendered st1 k" by simp
      with True r1 show ?thesis by (cases res) (simp_all add: run)
    next
      case False
      have r1i: "rendered st1 i = rendered st i"
        using False r1 by (cases res) simp_all
      show ?thesis
      proof (cases "k \<le> i")
        case True
        with False have "Suc k \<le> i" by simp
        then have d: "i - k = Suc (i - Suc k)" by simp
        from ih have "rendered st' i =
          (if Suc k \<le> i \<and> i < Suc k + length ms
              \<and> (\<exists>r. fst (attempts w (Suc k) ms (files st1) ! (i - Suc k)) = Inr r)
              \<and> path_exists (snd (attempts w (Suc k) ms (files st1) ! (i - Suc k))) (png_path i)
           then Some (png_path i) else rendered st1 i)" by (rule spec)
        with r1i f1 \<open>Suc k \<le> i\<close> True show ?thesis by (auto simp: run d)
      next
        case False
        from ih have "rendered st' i =
          (if Suc k \<le> i \<and> i < Suc k + length ms
              \<and> (\<exists>r. fst (attempts w (Suc k) ms (files st1) ! (i - Suc k)) = Inr r)
              \<and> path_exists (snd (attempts w (Suc k) ms (files st1) ! (i - Suc k))) (png_path i)
           then Some (png_path i) else rendered st1 i)" by (rule spec)
        with False r1i show ?thesis by simp
      qed
    qed
  qed
  with one rest show ?case by simp
qed

subsection \<open>A converter call that raises or leaves no artifact\<close>



section \<open>The claims\<close>

text \<open>
  Claim C1. When block \<open>K\<close> of the \<open>N\<close> blocks has no recorded artifact and every other
  block has one, the assembled text is the document with the span of every other block
  \<open>i\<close> replaced by the text \<open>![Diagram \<close>, the decimal numeral of \<open>i\<close>, \<open>](\<close>, the
  path recorded for \<open>i\<close>, and \<open>)\<close>: the \<open>i\<close>-th match takes the \<open>i\<close>-th outcome. The
  span of block \<open>K\<close> (opening literal, payload, closing literal, as it stands in the
  document) is kept and is a substring of the assembled text.
\<close>

theorem C1_failed_block_kept:
  assumes "K < length (blocks content)"
    and "rmap K = None"
    and "\<forall>i<length (blocks content). i \<noteq> K \<longrightarrow> (\<exists>p. rmap i = Some p)"
  shows "output_md content rmap =
           weave (gaps content (blocks content))
             (map (\<lambda>(i, m). if i = K then group0 m
                             else ''![Diagram '' @ str_nat i @ '']('' @ the (rmap i) @ '')'')
                (enumerate 0 (blocks content)))
         \<and> (\<forall>i. decimal_value (str_nat i) = Some i)
         \<and> sublist (group0 (blocks content ! K)) (output_md content rmap)
         \<and> group0 (blocks content ! K)
             = slice content (m_start (blocks content ! K)) (m_end (blocks content ! K))
         \<and> group0 (blocks content ! K)
             = open_delim @ group1 (blocks content ! K) @ close_delim"
proof -
  let ?ms = "blocks content"
  let ?f = "\<lambda>(i, m). fst (replace_block rmap m i)"
  let ?g = "\<lambda>(i, m). if i = K then group0 m
                      else ''![Diagram '' @ str_nat i @ '']('' @ the (rmap i) @ '')''"
  have eq: "map ?f (enumerate 0 ?ms) = map ?g (enumerate 0 ?ms)"
  proof (rule map_cong [OF refl])
    fix x assume "x \<in> set (enumerate 0 ?ms)"
    then have "fst x < length ?ms" by (simp add: in_set_enumerate_eq)
    then obtain i m where x: "x = (i, m)" and i: "i < length ?ms"
      by (cases x) simp
    show "?f x = ?g x"
    proof (cases "i = K")
      case True
      with x assms(2) show ?thesis by (simp add: replace_block_def)
    next
      case False
      with assms(3) i obtain p where "rmap i = Some p" by blast
      with x False show ?thesis by (simp add: replace_block_def image_ref_def)
    qed
  qed
  have w: "output_md content rmap = weave (gaps content ?ms) (map ?g (enumerate 0 ?ms))"
    using output_md_weave [of content rmap] eq by (simp only:)
  have "map ?g (enumerate 0 ?ms) ! K = group0 (?ms ! K)"
    using assms(1) by (simp add: nth_enumerate_eq)
  moreover have "sublist (map ?g (enumerate 0 ?ms) ! K) (weave (gaps content ?ms) (map ?g (enumerate 0 ?ms)))"
    by (rule weave_sublist) (use assms(1) in \<open>simp_all add: gaps_def length_gaps_from\<close>)
  ultimately have s: "sublist (group0 (?ms ! K)) (output_md content rmap)"
    using w by simp
  have mem: "?ms ! K \<in> set ?ms" using assms(1) by simp
  have dec: "\<forall>i. decimal_value (str_nat i) = Some i"
    by (simp add: decimal_value_str_nat)
  show ?thesis
    using w dec s blocks_span [OF mem] match_at_group0 [OF blocks_match_at [OF mem]]
    by (intro conjI)
qed

theorem C1_failed_block_kept_witness:
  "length (blocks doc_three) = 3 \<and> rmap_02 0 = Some ''/tmp/mermaid_diagrams/d0.png'' \<and>
   rmap_02 1 = None \<and> rmap_02 2 = Some ''/tmp/mermaid_diagrams/d2.png'' \<and>
   sublist (open_delim @ ''Y'' @ close_delim) (output_md doc_three rmap_02) \<and>
   output_md doc_three rmap_02 =
     ''a![Diagram 0](/tmp/mermaid_diagrams/d0.png)b'' @ open_delim @ ''Y'' @ close_delim
       @ ''c![Diagram 2](/tmp/mermaid_diagrams/d2.png)d''"
proof -
  have len: "length (blocks doc_three) = 3" by code_simp
  have h1: "1 < length (blocks doc_three)" using len by simp
  have r0: "rmap_02 0 = Some ''/tmp/mermaid_diagrams/d0.png''" by code_simp
  have h2: "rmap_02 1 = None" by (simp add: rmap_02_def)
  have r2: "rmap_02 2 = Some ''/tmp/mermaid_diagrams/d2.png''" by code_simp
  have h3: "\<forall>i<length (blocks doc_three). i \<noteq> 1 \<longrightarrow> (\<exists>p. rmap_02 i = Some p)"
    unfolding len by (auto simp: rmap_02_def less_Suc_eq numeral_3_eq_3)
  note c1 = C1_failed_block_kept [OF h1 h2 h3]
  have g: "group0 (blocks doc_three ! 1) = open_delim @ ''Y'' @ close_delim" by code_simp
  have "sublist (group0 (blocks doc_three ! 1)) (output_md doc_three rmap_02)"
    using c1 by (elim conjE)
  then have s: "sublist (open_delim @ ''Y'' @ close_delim) (output_md doc_three rmap_02)"
    unfolding g .
  have w: "output_md doc_three rmap_02 =
      weave (gaps doc_three (blocks doc_three))
        (map (\<lambda>(i, m). if i = 1 then group0 m
                        else ''![Diagram '' @ str_nat i @ '']('' @ the (rmap_02 i) @ '')'')
           (enumerate 0 (blocks doc_three)))"
    using c1 by (elim conjE)
  have "weave (gaps doc_three (blocks doc_three))
        (map (\<lambda>(i, m). if i = 1 then group0 m
                        else ''![Diagram '' @ str_nat i @ '']('' @ the (rmap_02 i) @ '')'')
           (enumerate 0 (blocks doc_three)))
      = ''a![Diagram 0](/tmp/mermaid_diagrams/d0.png)b'' @ open_delim @ ''Y'' @ close_delim
       @ ''c![Diagram 2](/tmp/mermaid_diagrams/d2.png)d''"
    by code_simp
  with w have o: "output_md doc_three rmap_02 =
     ''a![Diagram 0](/tmp/mermaid_diagrams/d0.png)b'' @ open_delim @ ''Y'' @ close_delim
       @ ''c![Diagram 2](/tmp/mermaid_diagrams/d2.png)d''" by (rule trans)
  from len r0 h2 r2 s o show ?thesis by (intro conjI)
qed

text \<open>
  Claim C2 as stated fails. The loop never reads the exit status of the renderer. In
  \<open>w_stale\<close> the renderer exits with status 1 and writes nothing, the artifact of block 0
  is still there from an earlier run, and the loop records success for block 0.
\<close>

theorem C2_counterexample:
  "(\<forall>fs. fst (mmdc w_stale (mmd_path 0) (png_path 0) fs)
       = Inr \<lparr>returncode = 1, stdout = [], stderr = ''Parse error''\<rparr>) \<and>
   blocks doc_one = [m_one] \<and>
   (case render_loop w_stale 0 (blocks doc_one) (st_start fs_stale) of
      Inl e \<Rightarrow> None
    | Inr st \<Rightarrow> rendered st 0) = Some (png_path 0)"
proof (intro conjI allI)
  fix fs
  show "fst (mmdc w_stale (mmd_path 0) (png_path 0) fs)
      = Inr \<lparr>returncode = 1, stdout = [], stderr = ''Parse error''\<rparr>"
    by (simp add: w_stale_def mmdc_exit1_def)
  show "blocks doc_one = [m_one]" by code_simp
  show "(case render_loop w_stale 0 (blocks doc_one) (st_start fs_stale) of
      Inl e \<Rightarrow> None
    | Inr st \<Rightarrow> rendered st 0) = Some (png_path 0)"
    by code_simp
qed

text \<open>
  Claim C2, amended. In a run whose scratch files can be written, the rendering loop,
  started with the empty mapping, ends with a mapping that has an entry for block \<open>i\<close>
  (with the artifact path of \<open>i\<close>) if and only if the call of the renderer for block \<open>i\<close>
  returned, with whatever exit status, and the artifact file exists in the file system
  that call left; a block whose call raised an exception or whose artifact is missing has
  no entry, and no entry of an earlier block is lost.
\<close>

theorem C2_success_iff_artifact:
  assumes "\<forall>i<length ms. writable w (mmd_path i)"
  shows "\<exists>st'. render_loop w 0 ms \<lparr>files = fs0, rendered = Map.empty, printed = ls\<rparr> = Inr st' \<and>
           (\<forall>i. rendered st' i =
              (if i < length ms
                  \<and> (\<exists>r. fst (attempts w 0 ms fs0 ! i) = Inr r)
                  \<and> path_exists (snd (attempts w 0 ms fs0 ! i)) (png_path i)
               then Some (png_path i) else None))"
proof -
  let ?st0 = "\<lparr>files = fs0, rendered = Map.empty, printed = ls\<rparr>"
  from assms have "\<forall>i. 0 \<le> i \<and> i < 0 + length ms \<longrightarrow> writable w (mmd_path i)" by simp
  from render_loop_rendered [OF this, of ?st0] obtain st'
    where loop: "render_loop w 0 ms ?st0 = Inr st'"
      and r: "\<forall>i. rendered st' i =
        (if 0 \<le> i \<and> i < 0 + length ms
            \<and> (\<exists>r. fst (attempts w 0 ms (files ?st0) ! (i - 0)) = Inr r)
            \<and> path_exists (snd (attempts w 0 ms (files ?st0) ! (i - 0))) (png_path i)
         then Some (png_path i) else rendered ?st0 i)"
    by (elim exE conjE)
  from r have "\<forall>i. rendered st' i =
      (if i < length ms
          \<and> (\<exists>r. fst (attempts w 0 ms fs0 ! i) = Inr r)
          \<and> path_exists (snd (attempts w 0 ms fs0 ! i)) (png_path i)
       then Some (png_path i) else None)"
    by simp
  with loop show ?thesis by (intro exI conjI)
qed

theorem C2_success_iff_artifact_witness:
  "(\<forall>p. writable w_flaky p) \<and> (\<forall>p. writable w_stale p) \<and>
   length (blocks doc_three) = 3 \<and>
   fst (attempts w_flaky 0 (blocks doc_three) fs_stale ! 0) = Inl TimeoutExpired \<and>
   path_exists (snd (attempts w_flaky 0 (blocks doc_three) fs_stale ! 0)) (png_path 0) \<and>
   fst (attempts w_stale 0 (blocks doc_three) fs_stale ! 0)
     = Inr \<lparr>returncode = 1, stdout = [], stderr = ''Parse error''\<rparr> \<and>
   (\<exists>st'. render_loop w_flaky 0 (blocks doc_three) (st_start fs_stale) = Inr st' \<and>
      rendered st' 0 = None \<and> rendered st' 1 = None \<and> rendered st' 2 = Some (png_path 2)) \<and>
   (\<exists>st'. render_loop w_stale 0 (blocks doc_three) (st_start fs_stale) = Inr st' \<and>
      rendered st' 0 = Some (png_path 0) \<and> rendered st' 1 = None \<and> rendered st' 2 = None)"
proof -
  let ?a = "attempts w_flaky 0 (blocks doc_three) fs_stale"
  let ?b = "attempts w_stale 0 (blocks doc_three) fs_stale"
  have w1: "\<forall>p. writable w_flaky p" by (simp add: w_flaky_def)
  have w2: "\<forall>p. writable w_stale p" by (simp add: w_stale_def)
  have l3: "length (blocks doc_three) = 3" by code_simp
  have a0: "fst (?a ! 0) = Inl TimeoutExpired" by code_simp
  have e0: "path_exists (snd (?a ! 0)) (png_path 0)" by code_simp
  have a1: "\<not> path_exists (snd (?a ! 1)) (png_path 1)" by code_simp
  have a2: "fst (?a ! 2) = Inr \<lparr>returncode = 0, stdout = [], stderr = []\<rparr>" by code_simp
  have e2: "path_exists (snd (?a ! 2)) (png_path 2)" by code_simp
  have b0: "fst (?b ! 0) = Inr \<lparr>returncode = 1, stdout = [], stderr = ''Parse error''\<rparr>"
    by code_simp
  have f0: "path_exists (snd (?b ! 0)) (png_path 0)" by code_simp
  have f1: "\<not> path_exists (snd (?b ! 1)) (png_path 1)" by code_simp
  have f2: "\<not> path_exists (snd (?b ! 2)) (png_path 2)" by code_simp
  have flaky: "\<exists>st'. render_loop w_flaky 0 (blocks doc_three) (st_start fs_stale) = Inr st' \<and>
      rendered st' 0 = None \<and> rendered st' 1 = None \<and> rendered st' 2 = Some (png_path 2)"
  proof -
    from w1 have h: "\<forall>i<length (blocks doc_three). writable w_flaky (mmd_path i)" by simp
    from C2_success_iff_artifact [OF h, of fs_stale "[]"] obtain st'
      where loop: "render_loop w_flaky 0 (blocks doc_three)
          \<lparr>files = fs_stale, rendered = Map.empty, printed = []\<rparr> = Inr st'"
        and r: "\<forall>i. rendered st' i =
          (if i < length (blocks doc_three)
              \<and> (\<exists>r. fst (?a ! i) = Inr r)
              \<and> path_exists (snd (?a ! i)) (png_path i)
           then Some (png_path i) else None)"
      by (elim exE conjE)
    from r a0 have r0: "rendered st' 0 = None" by simp
    from r a1 have r1: "rendered st' 1 = None" by simp
    from r a2 e2 l3 have r2: "rendered st' 2 = Some (png_path 2)" by simp
    from loop r0 r1 r2 show ?thesis
      unfolding st_start_def by (intro exI conjI)
  qed
  have stale: "\<exists>st'. render_loop w_stale 0 (blocks doc_three) (st_start fs_stale) = Inr st' \<and>
      rendered st' 0 = Some (png_path 0) \<and> rendered st' 1 = None \<and> rendered st' 2 = None"
  proof -
    from w2 have h: "\<forall>i<length (blocks doc_three). writable w_stale (mmd_path i)" by simp
    from C2_success_iff_artifact [OF h, of fs_stale "[]"] obtain st'
      where loop: "render_loop w_stale 0 (blocks doc_three)
          \<lparr>files = fs_stale, rendered = Map.empty, printed = []\<rparr> = Inr st'"
        and r: "\<forall>i. rendered st' i =
          (if i < length (blocks doc_three)
              \<and> (\<exists>r. fst (?b ! i) = Inr r)
              \<and> path_exists (snd (?b ! i)) (png_path i)
           then Some (png_path i) else None)"
      by (elim exE conjE)
    from r b0 f0 l3 have r0: "rendered st' 0 = Some (png_path 0)" by simp
    from r f1 have r1: "rendered st' 1 = None" by simp
    from r f2 have r2: "rendered st' 2 = None" by simp
    from loop r0 r1 r2 show ?thesis
      unfolding st_start_def by (intro exI conjI)
  qed
  from w1 w2 l3 a0 e0 b0 flaky stale show ?thesis by (intro conjI)
qed





text \<open>
  Claim C5. For a document in which the pattern has no match, the assembled text is the
  document itself.
\<close>

theorem C5_no_blocks_identity:
  "blocks content = [] \<Longrightarrow> output_md content rmap = content"
  by (simp add: output_md_def re_sub_def blocks_def finditer_def re_sub_from_no_match)

theorem C5_no_blocks_identity_witness:
  "blocks doc_plain = [] \<and> output_md doc_plain Map.empty = doc_plain"
proof -
  have h: "blocks doc_plain = []" by code_simp
  show ?thesis using h C5_no_blocks_identity [OF h, of Map.empty] by simp
qed








text \<open>
  Claim C8. The blocks of a document come in document order with spans that do not
  overlap (each ends before the next starts). Every block is a non-empty span inside the
  document, made of the opening literal, the payload and the closing literal, and it is the
  shortest such span at its start: no text that starts there with the opening literal and
  ends with the closing literal has a shorter payload. Two blocks written one after the
  other, with payloads free of backticks, are two blocks with their own payloads.
\<close>

theorem C8_blocks_lazy_disjoint:
  "sorted_wrt (\<lambda>a b. m_end a \<le> m_start b) (blocks content) \<and>
   (\<forall>m\<in>set (blocks content).
      m_start m < m_end m \<and> m_end m \<le> length content \<and>
      group0 m = slice content (m_start m) (m_end m) \<and>
      group0 m = open_delim @ group1 m @ close_delim \<and>
      (\<forall>payload. prefix (open_delim @ payload @ close_delim) (drop (m_start m) content)
         \<longrightarrow> length (group1 m) \<le> length payload)) \<and>
   (\<forall>a b. CHR 0x60 \<notin> set a \<and> CHR 0x60 \<notin> set b \<longrightarrow>
      map group1 (blocks (open_delim @ a @ close_delim @ open_delim @ b @ close_delim)) = [a, b])"
proof (intro conjI ballI allI impI)
  show "sorted_wrt (\<lambda>a b. m_end a \<le> m_start b) (blocks content)"
    by (simp add: blocks_def finditer_def finditer_from_sorted)
next
  fix m assume m: "m \<in> set (blocks content)"
  then have "m \<in> set (finditer_from 0 content)" by (simp add: blocks_def finditer_def)
  from finditer_from_bounds [OF this]
  show "m_start m < m_end m" and "m_end m \<le> length content" by simp_all
  show "group0 m = slice content (m_start m) (m_end m)" by (rule blocks_span [OF m])
  show "group0 m = open_delim @ group1 m @ close_delim"
    by (rule match_at_group0 [OF blocks_match_at [OF m]])
  fix payload
  assume "prefix (open_delim @ payload @ close_delim) (drop (m_start m) content)"
  with blocks_match_at [OF m] show "length (group1 m) \<le> length payload"
    by (rule match_at_lazy)
next
  fix a b :: string
  assume "CHR 0x60 \<notin> set a \<and> CHR 0x60 \<notin> set b"
  then show "map group1 (blocks (open_delim @ a @ close_delim @ open_delim @ b @ close_delim)) = [a, b]"
    by (simp add: blocks_adjacent)
qed

theorem C8_blocks_lazy_disjoint_witness:
  "length (blocks doc_three) = 3 \<and>
   sorted_wrt (\<lambda>a b. m_end a \<le> m_start b) (blocks doc_three) \<and>
   m_start (blocks doc_three ! 1) < m_end (blocks doc_three ! 1) \<and>
   group0 (blocks doc_three ! 1) = open_delim @ group1 (blocks doc_three ! 1) @ close_delim \<and>
   map group1 (blocks (open_delim @ ''A'' @ close_delim @ open_delim @ ''B'' @ close_delim))
     = [''A'', ''B'']"
proof -
  note c8 = C8_blocks_lazy_disjoint [of doc_three]
  have len: "length (blocks doc_three) = 3" by code_simp
  then have mem: "blocks doc_three ! 1 \<in> set (blocks doc_three)" by simp
  have s: "sorted_wrt (\<lambda>a b. m_end a \<le> m_start b) (blocks doc_three)"
    using c8 by (elim conjE)
  have per: "\<forall>m\<in>set (blocks doc_three).
      m_start m < m_end m \<and> m_end m \<le> length doc_three \<and>
      group0 m = slice doc_three (m_start m) (m_end m) \<and>
      group0 m = open_delim @ group1 m @ close_delim \<and>
      (\<forall>payload. prefix (open_delim @ payload @ close_delim) (drop (m_start m) doc_three)
         \<longrightarrow> length (group1 m) \<le> length payload)"
    using c8 by (elim conjE)
  have adj: "\<forall>a b. CHR 0x60 \<notin> set a \<and> CHR 0x60 \<notin> set b \<longrightarrow>
      map group1 (blocks (open_delim @ a @ close_delim @ open_delim @ b @ close_delim)) = [a, b]"
    using c8 by (elim conjE)
  have nb: "CHR 0x60 \<notin> set ''A'' \<and> CHR 0x60 \<notin> set ''B''" by simp
  from adj nb have two: "map group1 (blocks (open_delim @ ''A'' @ close_delim @ open_delim @ ''B'' @ close_delim))
     = [''A'', ''B'']" by blast
  from per mem have "m_start (blocks doc_three ! 1) < m_end (blocks doc_three ! 1)"
    and "group0 (blocks doc_three ! 1) = open_delim @ group1 (blocks doc_three ! 1) @ close_delim"
    by blast+
  with len s two show ?thesis by (intro conjI)
qed

text \<open>
  Claim C9. The document is its gaps (the text outside all spans) woven with the spans of
  its blocks, and the assembled text is the same gaps, in the same order, woven with the
  image reference for each block that has a recorded artifact and with the unchanged span
  for each block that has none.
\<close>

theorem C9_frame:
  "content = weave (gaps content (blocks content)) (map group0 (blocks content)) \<and>
   output_md content rmap =
     weave (gaps content (blocks content))
       (map (\<lambda>(i, m). case rmap i of Some p \<Rightarrow> image_ref i p | None \<Rightarrow> group0 m)
          (enumerate 0 (blocks content)))"
proof -
  have "(\<lambda>(i, m). fst (replace_block rmap m i))
      = (\<lambda>(i, m). case rmap i of Some p \<Rightarrow> image_ref i p | None \<Rightarrow> group0 m)"
    by (auto simp: replace_block_def fun_eq_iff split: option.splits)
  then show ?thesis
    using output_md_weave [of content rmap] content_weave [of content] by simp
qed

text \<open>
  Claim C10 as stated fails. In the document \<open>doc_unterminated\<close> the second opening literal
  has no closing literal after it, but its three backticks close the block that the first
  opening literal starts. With that block rendered, the assembled text holds
  \<open>mermaid\<close>, a newline and \<open>B\<close> after the image reference, and the unterminated text
  (the opening literal and \<open>B\<close>) is no substring of it.
\<close>

theorem C10_counterexample:
  "doc_unterminated = (open_delim @ ''A'') @ open_delim @ ''B'' \<and>
   \<not> sublist close_delim ''B'' \<and>
   output_md doc_unterminated rmap_0 = image_ref 0 (png_path 0) @ ''mermaid'' @ [CHR 0x0A] @ ''B'' \<and>
   \<not> sublist (open_delim @ ''B'') (output_md doc_unterminated rmap_0)"
proof (intro conjI)
  show "doc_unterminated = (open_delim @ ''A'') @ open_delim @ ''B''"
    by (simp add: doc_unterminated_def)
  show "\<not> sublist close_delim ''B''" by code_simp
  show "output_md doc_unterminated rmap_0 = image_ref 0 (png_path 0) @ ''mermaid'' @ [CHR 0x0A] @ ''B''"
    by code_simp
  show "\<not> sublist (open_delim @ ''B'') (output_md doc_unterminated rmap_0)"
    by code_simp
qed

text \<open>
  Claim C10, amended. When an opening literal at the end of \<open>pre\<close> has no closing literal
  after it, no block starts at it or after it, and every block ends at the latest with the
  three backticks of that opening literal; the substitution is a total function, so nothing
  is raised. The text after those backticks is always the end of the assembled text, and
  the whole unterminated text (opening literal and rest) is the end of the assembled text
  when no block ends after the start of the opening literal. A position where the text does
  not continue with the opening literal (the fence, the language tag and a newline) is never
  the start of a block.
\<close>

theorem C10_unterminated_opening:
  "(content = pre @ open_delim @ rest \<and> \<not> sublist close_delim rest \<longrightarrow>
      (\<forall>m\<in>set (blocks content).
         m_start m < length pre \<and> m_end m \<le> length pre + length close_delim) \<and>
      suffix (drop (length close_delim) open_delim @ rest) (output_md content rmap) \<and>
      ((\<forall>m\<in>set (blocks content). m_end m \<le> length pre) \<longrightarrow>
         suffix (open_delim @ rest) (output_md content rmap))) \<and>
   (\<forall>p. \<not> prefix open_delim (drop p content) \<longrightarrow> (\<forall>m\<in>set (blocks content). m_start m \<noteq> p))"
proof (intro conjI impI allI ballI)
  fix m
  assume "content = pre @ open_delim @ rest \<and> \<not> sublist close_delim rest"
    and "m \<in> set (blocks content)"
  then show "m_start m < length pre" and "m_end m \<le> length pre + length close_delim"
    using blocks_before_unterminated [of content pre rest m] by simp_all
next
  assume a: "content = pre @ open_delim @ rest \<and> \<not> sublist close_delim rest"
  then have "\<forall>m\<in>set (finditer_from 0 content). m_end m \<le> 0 + (length pre + length close_delim)"
    using blocks_before_unterminated [of content pre rest]
    by (simp add: blocks_def finditer_def)
  from re_sub_from_suffix [OF this, of "replace_block rmap" 0] a
  show "suffix (drop (length close_delim) open_delim @ rest) (output_md content rmap)"
    by (simp add: output_md_def re_sub_def open_delim_len close_delim_len)
next
  assume a: "content = pre @ open_delim @ rest \<and> \<not> sublist close_delim rest"
    and "\<forall>m\<in>set (blocks content). m_end m \<le> length pre"
  then have "\<forall>m\<in>set (finditer_from 0 content). m_end m \<le> 0 + length pre"
    by (simp add: blocks_def finditer_def)
  from re_sub_from_suffix [OF this, of "replace_block rmap" 0] a
  show "suffix (open_delim @ rest) (output_md content rmap)"
    by (simp add: output_md_def re_sub_def)
next
  fix p m
  assume np: "\<not> prefix open_delim (drop p content)" and m: "m \<in> set (blocks content)"
  show "m_start m \<noteq> p"
  proof
    assume "m_start m = p"
    with blocks_match_at [OF m] np show False
      by (simp add: match_at_Some_iff)
  qed
qed

theorem C10_unterminated_opening_witness:
  "doc_tail = doc_tail_pre @ open_delim @ ''Y'' \<and> \<not> sublist close_delim ''Y'' \<and>
   map m_end (blocks doc_tail) = [16] \<and> length doc_tail_pre = 17 \<and>
   suffix (open_delim @ ''Y'') (output_md doc_tail rmap_0) \<and>
   \<not> prefix open_delim (drop 0 doc_space) \<and> length (blocks doc_space) = 1 \<and>
   0 \<notin> m_start ` set (blocks doc_space)"
proof -
  have d: "doc_tail = doc_tail_pre @ open_delim @ ''Y''" by (simp add: doc_tail_def)
  have n: "\<not> sublist close_delim ''Y''" by code_simp
  have e: "map m_end (blocks doc_tail) = [16]" by code_simp
  have l: "length doc_tail_pre = 17" by code_simp
  have b: "\<forall>m\<in>set (blocks doc_tail). m_end m \<le> length doc_tail_pre"
  proof
    fix m assume "m \<in> set (blocks doc_tail)"
    then have "m_end m \<in> set (map m_end (blocks doc_tail))" by simp
    with e l show "m_end m \<le> length doc_tail_pre" by simp
  qed
  have s: "suffix (open_delim @ ''Y'') (output_md doc_tail rmap_0)"
    using C10_unterminated_opening [of doc_tail doc_tail_pre "''Y''" rmap_0] d n b by blast
  have np: "\<not> prefix open_delim (drop 0 doc_space)" by code_simp
  have one: "length (blocks doc_space) = 1" by code_simp
  have "\<forall>p. \<not> prefix open_delim (drop p doc_space) \<longrightarrow>
      (\<forall>m\<in>set (blocks doc_space). m_start m \<noteq> p)"
    using C10_unterminated_opening [of doc_space "[]" "[]" Map.empty] by (rule conjunct2)
  with np have "\<forall>m\<in>set (blocks doc_space). m_start m \<noteq> 0" by blast
  then have z: "0 \<notin> m_start ` set (blocks doc_space)" by auto
  from d n e l s np one z show ?thesis by (intro conjI)
qed

end
